theory Spec2Isabelle
  imports Main
begin

section \<open>The \<open>bufferToggle\<close> operator of \<open>src/internal/operators/bufferToggle.ts\<close>\<close>

text \<open>
  The operator is a set of callbacks over shared mutable state: the array \<open>buffers\<close>,
  the buffer arrays it refers to, and the subscriptions that decide which callbacks still
  run. The embedding makes that state a record, each callback a function from state to
  state, and each external happening (a notification of one of the three source roles, the
  operator's own subscription to the main source, a downstream unsubscribe) an event.
  A run is a fold of the events over the state; what the downstream consumer has received
  is the field \<open>out\<close>.
\<close>

subsection \<open>Notifications and events\<close>

text \<open>The three callbacks of an observer: \<open>next(v)\<close>, \<open>error(e)\<close>, \<open>complete()\<close>.\<close>

datatype ('v, 'e) notification = Next 'v | Error 'e | Complete

text \<open>
  What can happen to one subscription of the operator. \<open>Openings n\<close>: the openings source
  notifies. \<open>Source n\<close>: the main source notifies. \<open>Closing k n\<close>: the closing source that
  belongs to buffer \<open>k\<close> notifies after its \<open>subscribe\<close> call has returned.
  \<open>SubscribeSource\<close>: line 90, \<open>source.subscribe(...)\<close>, which runs when the call
  \<open>from(openings).subscribe(...)\<close> of line 63 has returned. \<open>Unsubscribe\<close>: the downstream
  consumer cancels.
\<close>

datatype ('a, 'o, 'c, 'e) event =
    Openings "('o, 'e) notification"
  | SubscribeSource
  | Source "('a, 'e) notification"
  | Closing nat "('c, 'e) notification"
  | Unsubscribe

subsection \<open>State\<close>

text \<open>
  One record per opening value, for the two subscriptions of lines 71 and 83:
  \<open>cl_stopped\<close> is the closing \<open>OperatorSubscriber\<close>'s stopped flag, \<open>cs_closed\<close> is
  \<open>closingSubscription.closed\<close>, and \<open>cs_added\<close> says that the closing subscriber has been
  added to \<open>closingSubscription\<close> (line 83, after \<open>subscribe\<close> has returned).
\<close>

record closing =
  cl_stopped :: bool
  cs_closed :: bool
  cs_added :: bool

text \<open>
  A buffer is a JavaScript array, so a reference: \<open>buffers\<close> holds references,
  \<open>heap\<close> the contents of every array, \<open>nxt\<close> the next fresh reference. The \<open>k\<close>-th
  opening value allocates reference \<open>k\<close>, so references are creation indices.
  \<open>open_stopped\<close>, \<open>src_stopped\<close> and \<open>sub_stopped\<close> are the stopped flags of the openings
  subscriber, of the main subscriber and of the downstream \<open>subscriber\<close>; \<open>src_sub\<close> says
  that line 90 has run. \<open>out\<close> lists what the downstream consumer received, each buffer as
  its reference and its contents at that moment.
\<close>

record ('a, 'e) state =
  buffers :: "nat list"
  heap :: "nat \<Rightarrow> 'a list"
  nxt :: nat
  closings :: "nat \<Rightarrow> closing"
  open_stopped :: bool
  src_sub :: bool
  src_stopped :: bool
  sub_stopped :: bool
  out :: "(nat \<times> 'a list, 'e) notification list"

text \<open>Line 60, and the openings subscriber of line 64, before anything has happened.\<close>

definition init :: "('a, 'e) state" where
  "init = \<lparr> buffers = [], heap = (\<lambda>_. []), nxt = 0,
            closings = (\<lambda>_. \<lparr> cl_stopped = True, cs_closed = True, cs_added = False \<rparr>),
            open_stopped = False, src_sub = False, src_stopped = False,
            sub_stopped = False, out = [] \<rparr>"

subsection \<open>The subscriber and subscription classes\<close>

text \<open>
  Modelled from the spec: \<open>arrRemove\<close> (\<open>../util/arrRemove\<close>) is not among the sources.
  The spec calls it removal of an arbitrary member by identity; the first occurrence of the
  reference is removed, and nothing happens when there is none.
\<close>

definition arrRemove :: "nat list \<Rightarrow> nat \<Rightarrow> nat list" where
  "arrRemove arr item = remove1 item arr"

text \<open>
  The classes \<open>Subscriber\<close>, \<open>OperatorSubscriber\<close> and \<open>Subscription\<close> are not among
  the sources either. What the operator needs of them is taken from the spec, sections 4.1
  and 4.2: a consumer takes no call after a terminal call or after its token is closed
  (one stopped flag per subscriber); closing a token is idempotent and closes all its
  current children; adding a child to a closed token closes the child at once; an
  \<open>OperatorSubscriber\<close> runs the handler it was given and otherwise forwards to its
  destination, and a terminal notification closes it. Every \<open>OperatorSubscriber\<close> of
  the operator is built with \<open>subscriber\<close> as destination and is thereby a child of it
  (the comment of line 82).
\<close>

text \<open>
  Modelled from the spec: \<open>Subscriber.next\<close> of the downstream \<open>subscriber\<close>, which is
  not among the sources. The value is delivered unless the subscriber is stopped.
\<close>

definition subscriber_next :: "nat \<Rightarrow> ('a, 'e) state \<Rightarrow> ('a, 'e) state" where
  "subscriber_next b s =
     (if sub_stopped s then s else s\<lparr> out := out s @ [Next (b, heap s b)] \<rparr>)"

text \<open>
  Modelled from the spec: \<open>Subscriber.unsubscribe\<close> of the downstream \<open>subscriber\<close>,
  which is not among the sources. Closing it closes its children: the openings
  subscriber, the main subscriber and every closing subscriber.
\<close>

definition subscriber_unsubscribe :: "('a, 'e) state \<Rightarrow> ('a, 'e) state" where
  "subscriber_unsubscribe s =
     s\<lparr> sub_stopped := True, open_stopped := True, src_stopped := True,
        closings := (\<lambda>k. (closings s k)\<lparr> cl_stopped := True \<rparr>) \<rparr>"

text \<open>
  Modelled from the spec: \<open>Subscriber.error\<close> of the downstream \<open>subscriber\<close>, which is
  not among the sources. The first terminal call is delivered and closes the subscriber;
  a later one is dropped.
\<close>

definition subscriber_error :: "'e \<Rightarrow> ('a, 'e) state \<Rightarrow> ('a, 'e) state" where
  "subscriber_error e s =
     (if sub_stopped s then s
      else subscriber_unsubscribe (s\<lparr> out := out s @ [Error e] \<rparr>))"

text \<open>
  Modelled from the spec: \<open>Subscriber.complete\<close> of the downstream \<open>subscriber\<close>, which
  is not among the sources; as \<open>subscriber_error\<close>.
\<close>

definition subscriber_complete :: "('a, 'e) state \<Rightarrow> ('a, 'e) state" where
  "subscriber_complete s =
     (if sub_stopped s then s
      else subscriber_unsubscribe (s\<lparr> out := out s @ [Complete] \<rparr>))"

text \<open>
  Modelled from the spec: \<open>Subscription.unsubscribe\<close>, which is not among the sources,
  as line 79 calls it: \<open>closingSubscription.unsubscribe()\<close> for buffer \<open>k\<close>. Nothing
  happens when it is closed already; otherwise it closes, and with it its child, the
  closing subscriber, if that has been added.
\<close>

definition closing_unsubscribe :: "nat \<Rightarrow> ('a, 'e) state \<Rightarrow> ('a, 'e) state" where
  "closing_unsubscribe k s =
     (let c = closings s k in
      if cs_closed c then s
      else s\<lparr> closings := (closings s)
              (k := c\<lparr> cs_closed := True, cl_stopped := cl_stopped c \<or> cs_added c \<rparr>) \<rparr>)"

text \<open>
  Modelled from the spec: \<open>Subscription.add\<close>, which is not among the sources, as line
  83 calls it: \<open>closingSubscription.add(...)\<close> for buffer \<open>k\<close>, with the closing
  subscriber as child. A closed subscription closes the child at once.
\<close>

definition closing_add :: "nat \<Rightarrow> ('a, 'e) state \<Rightarrow> ('a, 'e) state" where
  "closing_add k s =
     (let c = closings s k in
      if cs_closed c then s\<lparr> closings := (closings s)(k := c\<lparr> cl_stopped := True \<rparr>) \<rparr>
      else s\<lparr> closings := (closings s)(k := c\<lparr> cs_added := True \<rparr>) \<rparr>)"

text \<open>
  Modelled from the spec: the stopped flag of an \<open>OperatorSubscriber\<close>, a class that is
  not among the sources. The closing subscriber of buffer \<open>k\<close> stops at a terminal call
  and at its own \<open>unsubscribe\<close>.
\<close>

definition closing_stop :: "nat \<Rightarrow> ('a, 'e) state \<Rightarrow> ('a, 'e) state" where
  "closing_stop k s = s\<lparr> closings := (closings s)(k := (closings s k)\<lparr> cl_stopped := True \<rparr>) \<rparr>"

subsection \<open>The callbacks of the operator\<close>

text \<open>Lines 76 to 80, the closure \<open>emit\<close> of buffer \<open>k\<close>.\<close>

definition emit :: "nat \<Rightarrow> ('a, 'e) state \<Rightarrow> ('a, 'e) state" where
  "emit k s =
     closing_unsubscribe k (subscriber_next k (s\<lparr> buffers := arrRemove (buffers s) k \<rparr>))"

text \<open>
  Line 83, \<open>new OperatorSubscriber(subscriber, emit, undefined, emit)\<close>: a value runs
  \<open>emit\<close>, an error goes to \<open>subscriber.error\<close>, completion runs \<open>emit\<close>. A stopped
  subscriber handles nothing, and a terminal call stops it before its handler runs.
\<close>

definition closing_notify ::
  "nat \<Rightarrow> ('c, 'e) notification \<Rightarrow> ('a, 'e) state \<Rightarrow> ('a, 'e) state" where
  "closing_notify k n s =
     (if cl_stopped (closings s k) then s
      else case n of
          Next x \<Rightarrow> emit k s
        | Error e \<Rightarrow> closing_stop k (subscriber_error e (closing_stop k s))
        | Complete \<Rightarrow> closing_stop k (emit k (closing_stop k s)))"

text \<open>
  Lines 66 to 84, the value handler of the openings subscriber. \<open>sel openValue\<close> stands
  for \<open>from(closingSelector(openValue))\<close>: the notifications that source delivers while
  its \<open>subscribe\<close> call is running, in order. The argument of \<open>closingSubscription.add\<close>
  is evaluated first, so they are handled before the closing subscriber is added.
\<close>

definition open_next ::
  "('o \<Rightarrow> ('c, 'e) notification list) \<Rightarrow> 'o \<Rightarrow> ('a, 'e) state \<Rightarrow> ('a, 'e) state" where
  "open_next sel openValue s =
     (let k = nxt s;
          s1 = s\<lparr> buffers := buffers s @ [k], heap := (heap s)(k := []), nxt := Suc k,
                  closings := (closings s)
                    (k := \<lparr> cl_stopped = sub_stopped s, cs_closed = False, cs_added = False \<rparr>) \<rparr>;
          s2 = foldl (\<lambda>t n. closing_notify k n t) s1 (sel openValue)
      in closing_add k s2)"

text \<open>
  Lines 64 to 87, \<open>new OperatorSubscriber(subscriber, (openValue) => ..., undefined, noop)\<close>.
\<close>

definition openings_notify ::
  "('o \<Rightarrow> ('c, 'e) notification list) \<Rightarrow> ('o, 'e) notification \<Rightarrow>
   ('a, 'e) state \<Rightarrow> ('a, 'e) state" where
  "openings_notify sel n s =
     (if open_stopped s then s
      else case n of
          Next openValue \<Rightarrow> open_next sel openValue s
        | Error e \<Rightarrow> (subscriber_error e (s\<lparr> open_stopped := True \<rparr>))\<lparr> open_stopped := True \<rparr>
        | Complete \<Rightarrow> s\<lparr> open_stopped := True \<rparr>)"

text \<open>Lines 95 to 97: \<open>for (const buffer of buffers) buffer.push(value)\<close>.\<close>

definition push_all :: "'a \<Rightarrow> nat list \<Rightarrow> (nat \<Rightarrow> 'a list) \<Rightarrow> (nat \<Rightarrow> 'a list)" where
  "push_all v bs h = foldl (\<lambda>h' b. h'(b := h' b @ [v])) h bs"

text \<open>Lines 102 to 104: \<open>while (buffers.length > 0) subscriber.next(buffers.shift()!)\<close>.\<close>

function flush :: "('a, 'e) state \<Rightarrow> ('a, 'e) state" where
  "flush s =
     (case buffers s of
        [] \<Rightarrow> s
      | b # bs \<Rightarrow> flush (subscriber_next b (s\<lparr> buffers := bs \<rparr>)))"
  by pat_completeness auto
termination
  by (relation "measure (\<lambda>s. length (buffers s))") (auto simp: subscriber_next_def)

declare flush.simps [simp del]

text \<open>
  Lines 91 to 107, the main subscriber. Before line 90 has run the main source has no
  consumer, and nothing is handled.
\<close>

definition source_notify :: "('a, 'e) notification \<Rightarrow> ('a, 'e) state \<Rightarrow> ('a, 'e) state" where
  "source_notify n s =
     (if \<not> src_sub s \<or> src_stopped s then s
      else case n of
          Next v \<Rightarrow> s\<lparr> heap := push_all v (buffers s) (heap s) \<rparr>
        | Error e \<Rightarrow> (subscriber_error e (s\<lparr> src_stopped := True \<rparr>))\<lparr> src_stopped := True \<rparr>
        | Complete \<Rightarrow>
            (subscriber_complete (flush (s\<lparr> src_stopped := True \<rparr>)))\<lparr> src_stopped := True \<rparr>)"

text \<open>
  Line 90: the main subscriber is built with \<open>subscriber\<close> as destination, so it is
  stopped from the start when \<open>subscriber\<close> is already closed.
\<close>

definition source_subscribe :: "('a, 'e) state \<Rightarrow> ('a, 'e) state" where
  "source_subscribe s =
     (if src_sub s then s else s\<lparr> src_sub := True, src_stopped := sub_stopped s \<rparr>)"

subsection \<open>Runs\<close>

fun step ::
  "('o \<Rightarrow> ('c, 'e) notification list) \<Rightarrow> ('a, 'e) state \<Rightarrow> ('a, 'o, 'c, 'e) event \<Rightarrow>
   ('a, 'e) state" where
  "step sel s (Openings n) = openings_notify sel n s"
| "step sel s SubscribeSource = source_subscribe s"
| "step sel s (Source n) = source_notify n s"
| "step sel s (Closing k n) = (if k < nxt s then closing_notify k n s else s)"
| "step sel s Unsubscribe = subscriber_unsubscribe s"

definition run ::
  "('o \<Rightarrow> ('c, 'e) notification list) \<Rightarrow> ('a, 'o, 'c, 'e) event list \<Rightarrow> ('a, 'e) state" where
  "run sel evs = foldl (step sel) init evs"

text \<open>
  Lines 59 to 109: \<open>pre\<close> are the events while \<open>from(openings).subscribe(...)\<close> is
  running, then the main source is subscribed to, then \<open>post\<close> happen.
\<close>

definition bufferToggle ::
  "('o \<Rightarrow> ('c, 'e) notification list) \<Rightarrow> ('a, 'o, 'c, 'e) event list \<Rightarrow>
   ('a, 'o, 'c, 'e) event list \<Rightarrow> ('a, 'e) state" where
  "bufferToggle sel pre post = run sel (pre @ SubscribeSource # post)"

subsection \<open>Predicates on states and outputs\<close>

definition terminal :: "('v, 'e) notification \<Rightarrow> bool" where
  "terminal n = (case n of Next _ \<Rightarrow> False | _ \<Rightarrow> True)"

definition inv_buffers :: "('a, 'e) state \<Rightarrow> bool" where
  "inv_buffers s \<longleftrightarrow>
     sorted (buffers s) \<and> distinct (buffers s) \<and> (\<forall>b\<in>set (buffers s). b < nxt s)"

definition inv_stopped :: "('a, 'e) state \<Rightarrow> bool" where
  "inv_stopped s \<longleftrightarrow>
     (sub_stopped s \<longrightarrow>
        open_stopped s \<and> src_stopped s \<and> (\<forall>k. cl_stopped (closings s k)))"

definition inv_added :: "nat \<Rightarrow> ('a, 'e) state \<Rightarrow> bool" where
  "inv_added n s \<longleftrightarrow>
     (\<forall>k<n. \<not> cl_stopped (closings s k) \<longrightarrow>
        cs_added (closings s k) \<and> \<not> cs_closed (closings s k))"

definition inv_fresh :: "('a, 'e) state \<Rightarrow> bool" where
  "inv_fresh s \<longleftrightarrow> (\<forall>k\<ge>nxt s. heap s k = [])"

definition inv_out :: "('a, 'e) state \<Rightarrow> bool" where
  "inv_out s \<longleftrightarrow>
     filter terminal (butlast (out s)) = [] \<and>
     (sub_stopped s \<or> filter terminal (out s) = [])"

definition emitted :: "(nat \<times> 'a list, 'e) notification list \<Rightarrow> nat list" where
  "emitted ns = concat (map (\<lambda>n. case n of Next p \<Rightarrow> [fst p] | _ \<Rightarrow> []) ns)"

definition inv_once :: "('a, 'e) state \<Rightarrow> bool" where
  "inv_once s \<longleftrightarrow>
     distinct (emitted (out s)) \<and>
     (\<forall>b\<in>set (emitted (out s)). b < nxt s \<and> b \<notin> set (buffers s)) \<and>
     (\<forall>b<nxt s. b \<notin> set (buffers s) \<longrightarrow> cl_stopped (closings s b))"

definition inv :: "('a, 'e) state \<Rightarrow> bool" where
  "inv s \<longleftrightarrow>
     inv_buffers s \<and> inv_stopped s \<and> inv_added (nxt s) s \<and> inv_fresh s \<and> inv_out s"

section \<open>Properties\<close>

lemmas sub_defs = subscriber_next_def subscriber_unsubscribe_def subscriber_error_def
  subscriber_complete_def
lemmas cl_defs = closing_unsubscribe_def closing_add_def closing_stop_def emit_def
  closing_notify_def

lemma flush_eq:
  "flush s = s\<lparr> buffers := [],
     out := (if sub_stopped s then out s
             else out s @ map (\<lambda>b. Next (b, heap s b)) (buffers s)) \<rparr>"
proof (induction "buffers s" arbitrary: s)
  case Nil
  then show ?case by (simp add: flush.simps [of s])
next
  case (Cons b bs)
  from Cons(2) have bs: "buffers s = b # bs" by simp
  have "bs = buffers (subscriber_next b (s\<lparr> buffers := bs \<rparr>))"
    by (simp add: subscriber_next_def)
  from Cons(1) [OF this] show ?case
    by (simp add: flush.simps [of s] bs subscriber_next_def)
qed

lemma push_all_Nil: "push_all v [] h = h"
  by (simp add: push_all_def)

lemma push_all_Cons: "push_all v (a # bs) h = push_all v bs (h(a := h a @ [v]))"
  by (simp add: push_all_def)

lemma push_all_notin: "b \<notin> set bs \<Longrightarrow> push_all v bs h b = h b"
  by (induction bs arbitrary: h) (simp_all add: push_all_Nil push_all_Cons)

lemma push_all_in: "distinct bs \<Longrightarrow> b \<in> set bs \<Longrightarrow> push_all v bs h b = h b @ [v]"
proof (induction bs arbitrary: h)
  case Nil
  then show ?case by simp
next
  case (Cons a bs)
  show ?case
  proof (cases "b = a")
    case True
    with Cons(2) have "b \<notin> set bs" by simp
    then show ?thesis using True by (simp add: push_all_Cons push_all_notin)
  next
    case False
    with Cons show ?thesis by (simp add: push_all_Cons)
  qed
qed


lemmas eval_defs = run_def bufferToggle_def init_def openings_notify_def open_next_def
  source_notify_def source_subscribe_def closing_notify_def emit_def closing_unsubscribe_def
  closing_add_def closing_stop_def subscriber_next_def subscriber_unsubscribe_def
  subscriber_error_def subscriber_complete_def arrRemove_def push_all_def flush_eq Let_def

subsection \<open>closing_notify\<close>

lemma closing_notify_nxt [simp]: "nxt (closing_notify k n s) = nxt s"
  by (simp add: cl_defs sub_defs Let_def split: notification.splits)

lemma closing_notify_heap [simp]: "heap (closing_notify k n s) = heap s"
  by (simp add: cl_defs sub_defs Let_def split: notification.splits)

lemma closing_notify_src_sub [simp]: "src_sub (closing_notify k n s) = src_sub s"
  by (simp add: cl_defs sub_defs Let_def split: notification.splits)

lemma closing_notify_buffers:
  "buffers (closing_notify k n s) = buffers s \<or>
   buffers (closing_notify k n s) = remove1 k (buffers s)"
  by (simp add: cl_defs sub_defs arrRemove_def Let_def split: notification.splits)

lemma closing_notify_inv_buffers:
  "inv_buffers s \<Longrightarrow> inv_buffers (closing_notify k n s)"
  using closing_notify_buffers [of k n s]
  by (auto simp: inv_buffers_def sorted_remove1 dest: notin_set_remove1)

lemma closing_notify_inv_stopped:
  "inv_stopped s \<Longrightarrow> inv_stopped (closing_notify k n s)"
  by (auto simp: inv_stopped_def cl_defs sub_defs Let_def split: notification.splits)

lemma closing_notify_inv_added:
  "inv_added m s \<Longrightarrow> inv_added m (closing_notify k n s)"
  by (auto simp: inv_added_def cl_defs sub_defs Let_def split: notification.splits)

lemma closing_notify_inv_out:
  "inv_out s \<Longrightarrow> inv_out (closing_notify k n s)"
  by (auto simp: inv_out_def terminal_def cl_defs sub_defs Let_def butlast_append
      split: notification.splits)

lemma closing_notify_frozen:
  "sub_stopped s \<Longrightarrow>
     sub_stopped (closing_notify k n s) \<and> out (closing_notify k n s) = out s"
  by (simp add: cl_defs sub_defs Let_def split: notification.splits)


subsection \<open>open_next\<close>

lemma sync_fold:
  fixes ns :: "('c, 'e) notification list"
  assumes start: "P s"
    and stp: "\<And>t (n :: ('c, 'e) notification). P t \<Longrightarrow> P (closing_notify k n t)"
  shows "P (foldl (\<lambda>t n. closing_notify k n t) s ns)"
  using start
proof (induction ns arbitrary: s)
  case Nil
  then show ?case by simp
next
  case (Cons a ns)
  from stp [OF Cons.prems] have "P (closing_notify k a s)" .
  from Cons.IH [OF this] show ?case by simp
qed

lemma sync_fold_nxt [simp]: "nxt (foldl (\<lambda>t n. closing_notify k n t) s ns) = nxt s"
  by (induction ns arbitrary: s) simp_all

lemma sync_fold_heap [simp]: "heap (foldl (\<lambda>t n. closing_notify k n t) s ns) = heap s"
  by (induction ns arbitrary: s) simp_all

lemma sync_fold_src_sub [simp]:
  "src_sub (foldl (\<lambda>t n. closing_notify k n t) s ns) = src_sub s"
  by (induction ns arbitrary: s) simp_all

lemma closing_add_fields [simp]:
  "buffers (closing_add k s) = buffers s" "heap (closing_add k s) = heap s"
  "nxt (closing_add k s) = nxt s" "out (closing_add k s) = out s"
  "sub_stopped (closing_add k s) = sub_stopped s" "src_sub (closing_add k s) = src_sub s"
  "open_stopped (closing_add k s) = open_stopped s"
  "src_stopped (closing_add k s) = src_stopped s"
  by (simp_all add: closing_add_def Let_def)

lemma open_next_nxt [simp]: "nxt (open_next sel x s) = Suc (nxt s)"
  by (simp add: open_next_def Let_def)

lemma open_next_heap [simp]: "heap (open_next sel x s) = (heap s)(nxt s := [])"
  by (simp add: open_next_def Let_def)

lemma open_next_src_sub [simp]: "src_sub (open_next sel x s) = src_sub s"
  by (simp add: open_next_def Let_def)

lemma open_next_inv_buffers:
  assumes "inv_buffers s"
  shows "inv_buffers (open_next sel x s)"
proof -
  let ?s1 = "s\<lparr> buffers := buffers s @ [nxt s], heap := (heap s)(nxt s := []),
      nxt := Suc (nxt s),
      closings := (closings s)
        (nxt s := \<lparr> cl_stopped = sub_stopped s, cs_closed = False, cs_added = False \<rparr>) \<rparr>"
  from assms have "inv_buffers ?s1"
    by (auto simp: inv_buffers_def sorted_append less_imp_le)
  then have "inv_buffers (foldl (\<lambda>t n. closing_notify (nxt s) n t) ?s1 (sel x))"
    by (rule sync_fold [where P = inv_buffers]) (rule closing_notify_inv_buffers)
  then show ?thesis
    by (simp add: open_next_def Let_def inv_buffers_def)
qed

lemma open_next_inv_stopped:
  assumes "inv_stopped s"
  shows "inv_stopped (open_next sel x s)"
proof -
  let ?s1 = "s\<lparr> buffers := buffers s @ [nxt s], heap := (heap s)(nxt s := []),
      nxt := Suc (nxt s),
      closings := (closings s)
        (nxt s := \<lparr> cl_stopped = sub_stopped s, cs_closed = False, cs_added = False \<rparr>) \<rparr>"
  from assms have "inv_stopped ?s1"
    by (auto simp: inv_stopped_def)
  then have "inv_stopped (foldl (\<lambda>t n. closing_notify (nxt s) n t) ?s1 (sel x))"
    by (rule sync_fold [where P = inv_stopped]) (rule closing_notify_inv_stopped)
  then show ?thesis
    by (auto simp: open_next_def Let_def inv_stopped_def closing_add_def)
qed

lemma open_next_inv_added:
  assumes "inv_added (nxt s) s"
  shows "inv_added (Suc (nxt s)) (open_next sel x s)"
proof -
  let ?s1 = "s\<lparr> buffers := buffers s @ [nxt s], heap := (heap s)(nxt s := []),
      nxt := Suc (nxt s),
      closings := (closings s)
        (nxt s := \<lparr> cl_stopped = sub_stopped s, cs_closed = False, cs_added = False \<rparr>) \<rparr>"
  from assms have "inv_added (nxt s) ?s1"
    by (auto simp: inv_added_def)
  then have "inv_added (nxt s) (foldl (\<lambda>t n. closing_notify (nxt s) n t) ?s1 (sel x))"
    by (rule sync_fold [where P = "inv_added (nxt s)"]) (rule closing_notify_inv_added)
  then show ?thesis
    by (auto simp: open_next_def Let_def inv_added_def closing_add_def less_Suc_eq)
qed

lemma open_next_inv_out:
  assumes "inv_out s"
  shows "inv_out (open_next sel x s)"
proof -
  let ?s1 = "s\<lparr> buffers := buffers s @ [nxt s], heap := (heap s)(nxt s := []),
      nxt := Suc (nxt s),
      closings := (closings s)
        (nxt s := \<lparr> cl_stopped = sub_stopped s, cs_closed = False, cs_added = False \<rparr>) \<rparr>"
  from assms have "inv_out ?s1"
    by (auto simp: inv_out_def)
  then have "inv_out (foldl (\<lambda>t n. closing_notify (nxt s) n t) ?s1 (sel x))"
    by (rule sync_fold [where P = inv_out]) (rule closing_notify_inv_out)
  then show ?thesis
    by (simp add: open_next_def Let_def inv_out_def)
qed

lemma open_next_frozen:
  assumes "sub_stopped s"
  shows "sub_stopped (open_next sel x s) \<and> out (open_next sel x s) = out s"
proof -
  let ?s1 = "s\<lparr> buffers := buffers s @ [nxt s], heap := (heap s)(nxt s := []),
      nxt := Suc (nxt s),
      closings := (closings s)
        (nxt s := \<lparr> cl_stopped = sub_stopped s, cs_closed = False, cs_added = False \<rparr>) \<rparr>"
  let ?P = "\<lambda>t. sub_stopped t \<and> out t = out s"
  from assms have "?P ?s1" by simp
  then have "?P (foldl (\<lambda>t n. closing_notify (nxt s) n t) ?s1 (sel x))"
    by (rule sync_fold [where P = ?P]) (simp add: closing_notify_frozen)
  then show ?thesis
    by (simp add: open_next_def Let_def)
qed

subsection \<open>The invariant of reachable states\<close>

lemma inv_init: "inv init"
  by (simp add: inv_def inv_buffers_def inv_stopped_def inv_added_def inv_fresh_def
      inv_out_def init_def)

lemma step_inv_buffers: "inv_buffers s \<Longrightarrow> inv_buffers (step sel s ev)"
proof (cases ev)
  case (Openings n)
  assume "inv_buffers s"
  then show ?thesis using Openings open_next_inv_buffers [of s sel]
    by (auto simp: openings_notify_def sub_defs inv_buffers_def split: notification.splits)
next
  case (Source n)
  assume "inv_buffers s"
  then show ?thesis using Source
    by (auto simp: source_notify_def sub_defs flush_eq inv_buffers_def
        split: notification.splits)
next
  case (Closing k n)
  assume "inv_buffers s"
  then show ?thesis using Closing by (simp add: closing_notify_inv_buffers)
qed (auto simp: inv_buffers_def source_subscribe_def sub_defs)

lemma step_inv_stopped: "inv_stopped s \<Longrightarrow> inv_stopped (step sel s ev)"
proof (cases ev)
  case (Openings n)
  assume "inv_stopped s"
  then show ?thesis using Openings open_next_inv_stopped [of s sel]
    by (auto simp: openings_notify_def sub_defs inv_stopped_def split: notification.splits)
next
  case (Source n)
  assume "inv_stopped s"
  then show ?thesis using Source
    by (auto simp: source_notify_def sub_defs flush_eq inv_stopped_def
        split: notification.splits)
next
  case (Closing k n)
  assume "inv_stopped s"
  then show ?thesis using Closing by (simp add: closing_notify_inv_stopped)
qed (auto simp: inv_stopped_def source_subscribe_def sub_defs)

lemma step_nxt: "nxt s \<le> nxt (step sel s ev)"
  by (cases ev)
    (auto simp: openings_notify_def source_notify_def source_subscribe_def sub_defs flush_eq
      split: notification.splits)

lemma step_inv_added: "inv_added (nxt s) s \<Longrightarrow> inv_added (nxt (step sel s ev)) (step sel s ev)"
proof (cases ev)
  case (Openings n)
  assume "inv_added (nxt s) s"
  then show ?thesis using Openings open_next_inv_added [of s sel]
    by (auto simp: openings_notify_def sub_defs inv_added_def split: notification.splits)
next
  case (Source n)
  assume "inv_added (nxt s) s"
  then show ?thesis using Source
    by (auto simp: source_notify_def sub_defs flush_eq inv_added_def
        split: notification.splits)
next
  case (Closing k n)
  assume "inv_added (nxt s) s"
  then show ?thesis using Closing by (simp add: closing_notify_inv_added)
qed (auto simp: inv_added_def source_subscribe_def sub_defs)

lemma step_inv_out: "inv_out s \<Longrightarrow> inv_out (step sel s ev)"
proof (cases ev)
  case (Openings n)
  assume "inv_out s"
  then show ?thesis using Openings open_next_inv_out [of s sel]
    by (auto simp: openings_notify_def sub_defs inv_out_def terminal_def butlast_append
        split: notification.splits)
next
  case (Source n)
  assume "inv_out s"
  then show ?thesis using Source
    by (auto simp: source_notify_def sub_defs flush_eq inv_out_def terminal_def
        butlast_append filter_empty_conv split: notification.splits)
next
  case (Closing k n)
  assume "inv_out s"
  then show ?thesis using Closing by (simp add: closing_notify_inv_out)
qed (auto simp: inv_out_def source_subscribe_def sub_defs)


lemma step_inv_fresh:
  assumes "inv_fresh s" and "inv_buffers s"
  shows "inv_fresh (step sel s ev)"
proof (cases ev)
  case (Openings n)
  with assms(1) show ?thesis
    by (cases n) (simp_all add: openings_notify_def sub_defs inv_fresh_def)
next
  case SubscribeSource
  with assms(1) show ?thesis by (simp add: inv_fresh_def source_subscribe_def)
next
  case (Source n)
  have "\<And>v k. nxt s \<le> k \<Longrightarrow> push_all v (buffers s) (heap s) k = []"
    using assms by (subst push_all_notin) (auto simp: inv_fresh_def inv_buffers_def)
  with Source assms(1) show ?thesis
    by (cases n) (simp_all add: source_notify_def sub_defs flush_eq inv_fresh_def)
next
  case (Closing k n)
  with assms(1) show ?thesis by (simp add: inv_fresh_def)
next
  case Unsubscribe
  with assms(1) show ?thesis by (simp add: inv_fresh_def sub_defs)
qed

lemma step_inv: "inv s \<Longrightarrow> inv (step sel s ev)"
  by (simp add: inv_def step_inv_buffers step_inv_stopped step_inv_added step_inv_fresh
      step_inv_out del: step.simps)

lemma run_Nil: "run sel [] = init"
  by (simp add: run_def)

lemma run_snoc: "run sel (evs @ [ev]) = step sel (run sel evs) ev"
  by (simp add: run_def)

lemma run_append: "run sel (evs @ evs') = foldl (step sel) (run sel evs) evs'"
  by (simp add: run_def)

lemma run_inv: "inv (run sel evs)"
  by (induction evs rule: rev_induct) (simp_all add: run_Nil inv_init run_snoc step_inv)


subsection \<open>After the downstream subscriber has stopped\<close>

lemma step_frozen:
  assumes "sub_stopped s"
  shows "sub_stopped (step sel s ev) \<and> out (step sel s ev) = out s"
proof (cases ev)
  case (Openings n)
  with assms open_next_frozen [OF assms, of sel] show ?thesis
    by (cases n) (simp_all add: openings_notify_def sub_defs)
next
  case SubscribeSource
  with assms show ?thesis by (simp add: source_subscribe_def)
next
  case (Source n)
  with assms show ?thesis
    by (cases n) (simp_all add: source_notify_def sub_defs flush_eq)
next
  case (Closing k n)
  with assms closing_notify_frozen [OF assms, of k n] show ?thesis by simp
next
  case Unsubscribe
  with assms show ?thesis by (simp add: sub_defs)
qed

lemma steps_frozen:
  "sub_stopped s \<Longrightarrow>
     sub_stopped (foldl (step sel) s evs) \<and> out (foldl (step sel) s evs) = out s"
proof (induction evs arbitrary: s)
  case Nil
  then show ?case by simp
next
  case (Cons ev evs)
  from step_frozen [OF Cons.prems, of sel ev] Cons.IH [of "step sel s ev"]
  show ?case by simp
qed

lemma run_Cons_after:
  "run sel (evs @ ev # evs') = foldl (step sel) (step sel (run sel evs) ev) evs'"
  by (simp add: run_def)

subsection \<open>Buffers that have been removed\<close>

lemma open_next_buffers_subset:
  fixes sel :: "'o \<Rightarrow> ('c, 'e) notification list" and s :: "('a, 'e) state"
  shows "set (buffers (open_next sel x s)) \<subseteq> insert (nxt s) (set (buffers s))"
proof -
  let ?s1 = "s\<lparr> buffers := buffers s @ [nxt s], heap := (heap s)(nxt s := []),
      nxt := Suc (nxt s),
      closings := (closings s)
        (nxt s := \<lparr> cl_stopped = sub_stopped s, cs_closed = False, cs_added = False \<rparr>) \<rparr>"
  let ?P = "\<lambda>t :: ('a, 'e) state. set (buffers t) \<subseteq> insert (nxt s) (set (buffers s))"
  have "?P ?s1" by auto
  then have "?P (foldl (\<lambda>t n. closing_notify (nxt s) n t) ?s1 (sel x))"
  proof (rule sync_fold [where P = ?P])
    fix t :: "('a, 'e) state" and n :: "('c, 'e) notification"
    assume "?P t"
    with closing_notify_buffers [of "nxt s" n t] set_remove1_subset [of "nxt s" "buffers t"]
    show "?P (closing_notify (nxt s) n t)" by auto
  qed
  then show ?thesis by (simp add: open_next_def Let_def)
qed

lemma step_removed:
  assumes "b < nxt s" and "b \<notin> set (buffers s)"
  shows "b < nxt (step sel s ev) \<and> b \<notin> set (buffers (step sel s ev))
       \<and> heap (step sel s ev) b = heap s b"
proof (cases ev)
  case (Openings n)
  from open_next_buffers_subset [of sel _ s] assms
  have "\<And>x. b \<notin> set (buffers (open_next sel x s))" by auto
  with Openings assms show ?thesis
    by (cases n) (simp_all add: openings_notify_def sub_defs)
next
  case SubscribeSource
  with assms show ?thesis by (simp add: source_subscribe_def)
next
  case (Source n)
  with assms show ?thesis
    by (cases n) (simp_all add: source_notify_def sub_defs flush_eq push_all_notin)
next
  case (Closing k n)
  from closing_notify_buffers [of k n s] set_remove1_subset [of k "buffers s"] assms(2)
  have "b \<notin> set (buffers (closing_notify k n s))" by auto
  with Closing assms show ?thesis by simp
next
  case Unsubscribe
  with assms show ?thesis by (simp add: sub_defs)
qed

lemma steps_removed:
  "b < nxt s \<Longrightarrow> b \<notin> set (buffers s) \<Longrightarrow>
     heap (foldl (step sel) s evs) b = heap s b"
proof (induction evs arbitrary: s)
  case Nil
  then show ?case by simp
next
  case (Cons ev evs)
  from step_removed [OF Cons.prems, of sel ev] Cons.IH [of "step sel s ev"]
  show ?case by simp
qed

subsection \<open>Runs without opening values, and runs before the main source is subscribed to\<close>

lemma no_openings:
  fixes sel :: "'o \<Rightarrow> ('c, 'e) notification list"
    and evs :: "('a, 'o, 'c, 'e) event list"
  assumes "\<forall>x. Openings (Next x) \<notin> set evs"
  shows "nxt (run sel evs :: ('a, 'e) state) = 0
       \<and> filter (\<lambda>n. \<not> terminal n) (out (run sel evs :: ('a, 'e) state)) = []"
  using assms
proof (induction evs rule: rev_induct)
  case Nil
  then show ?case by (simp add: run_Nil init_def)
next
  case (snoc ev evs)
  let ?s = "run sel evs :: ('a, 'e) state"
  from snoc have ih: "nxt ?s = 0" "filter (\<lambda>n. \<not> terminal n) (out ?s) = []"
    by simp_all
  have b: "buffers ?s = []"
    using run_inv [of sel evs] ih(1) by (cases "buffers ?s") (auto simp: inv_def inv_buffers_def)
  show ?case
  proof (cases ev)
    case (Openings n)
    show ?thesis
    proof (cases n)
      case (Next x)
      with snoc.prems Openings have False by auto
      then show ?thesis ..
    next
      case (Error e)
      with Openings ih show ?thesis
        by (simp add: run_snoc openings_notify_def sub_defs terminal_def)
    next
      case Complete
      with Openings ih show ?thesis
        by (simp add: run_snoc openings_notify_def)
    qed
  next
    case SubscribeSource
    with ih show ?thesis by (simp add: run_snoc source_subscribe_def)
  next
    case (Source n)
    with ih b show ?thesis
      by (cases n) (simp_all add: run_snoc source_notify_def sub_defs flush_eq terminal_def)
  next
    case (Closing k n)
    with ih show ?thesis by (simp add: run_snoc)
  next
    case Unsubscribe
    with ih show ?thesis by (simp add: run_snoc sub_defs)
  qed
qed

lemma pre_phase:
  fixes sel :: "'o \<Rightarrow> ('c, 'e) notification list"
    and pre :: "('a, 'o, 'c, 'e) event list"
  assumes "SubscribeSource \<notin> set pre"
  shows "\<not> src_sub (run sel pre :: ('a, 'e) state)
       \<and> heap (run sel pre :: ('a, 'e) state) = (\<lambda>_. [])"
  using assms
proof (induction pre rule: rev_induct)
  case Nil
  then show ?case by (simp add: run_Nil init_def)
next
  case (snoc ev pre)
  let ?s = "run sel pre :: ('a, 'e) state"
  from snoc have ih: "\<not> src_sub ?s" "heap ?s = (\<lambda>_. [])" by simp_all
  show ?case
  proof (cases ev)
    case (Openings n)
    with ih show ?thesis
      by (cases n) (auto simp: run_snoc openings_notify_def sub_defs)
  next
    case SubscribeSource
    with snoc.prems show ?thesis by simp
  next
    case (Source n)
    with ih show ?thesis by (simp add: run_snoc source_notify_def)
  next
    case (Closing k n)
    with ih show ?thesis by (simp add: run_snoc)
  next
    case Unsubscribe
    with ih show ?thesis by (simp add: run_snoc sub_defs)
  qed
qed

subsection \<open>The stopped flag of the openings subscriber\<close>

lemma open_stopped_commute:
  assumes "\<And>n. ev \<noteq> Openings n"
  shows "step sel (s\<lparr> open_stopped := True \<rparr>) ev = (step sel s ev)\<lparr> open_stopped := True \<rparr>"
proof (cases ev)
  case (Openings n)
  with assms [of n] show ?thesis by simp
next
  case SubscribeSource
  then show ?thesis by (simp add: source_subscribe_def)
next
  case (Source n)
  then show ?thesis by (cases n) (simp_all add: source_notify_def sub_defs flush_eq)
next
  case (Closing k n)
  then show ?thesis by (cases n) (simp_all add: cl_defs sub_defs Let_def)
next
  case Unsubscribe
  then show ?thesis by (simp add: sub_defs)
qed

lemma open_stopped_commute_steps:
  "\<forall>n. Openings n \<notin> set evs \<Longrightarrow>
     foldl (step sel) (s\<lparr> open_stopped := True \<rparr>) evs =
     (foldl (step sel) s evs)\<lparr> open_stopped := True \<rparr>"
proof (induction evs arbitrary: s)
  case Nil
  then show ?case by simp
next
  case (Cons ev evs)
  then have "\<And>n. ev \<noteq> Openings n" by auto
  from open_stopped_commute [OF this, of sel s] Cons show ?case by simp
qed

subsection \<open>Buffers emitted once\<close>

text \<open>
  When no closing source notifies more than once while its \<open>subscribe\<close> call is
  running, no buffer reference occurs twice in the output.
\<close>

lemma emitted_simps [simp]:
  "emitted [] = []"
  "emitted (ns @ ms) = emitted ns @ emitted ms"
  "emitted [Next p] = [fst p]"
  "emitted [Error e] = []"
  "emitted [Complete] = []"
  by (simp_all add: emitted_def)

lemma emitted_flush [simp]: "emitted (map (\<lambda>b. Next (b, h b)) bs) = bs"
  by (induction bs) (simp_all add: emitted_def)

lemma closing_notify_inv_once:
  fixes s :: "('a, 'e) state" and n :: "('c, 'e) notification"
  assumes i: "inv_buffers s" "inv_stopped s" "inv_added (nxt s) s" and o: "inv_once s"
    and k: "k < nxt s"
  shows "inv_once (closing_notify k n s)"
proof (cases "cl_stopped (closings s k)")
  case True
  with o show ?thesis by (simp add: closing_notify_def)
next
  case False
  with i(2) have ns: "\<not> sub_stopped s" by (auto simp: inv_stopped_def)
  from False k i(3) have ad: "cs_added (closings s k)" "\<not> cs_closed (closings s k)"
    by (auto simp: inv_added_def)
  from False k o have kin: "k \<in> set (buffers s)" by (auto simp: inv_once_def)
  with o have kne: "k \<notin> set (emitted (out s))" by (auto simp: inv_once_def)
  from i(1) have d: "distinct (buffers s)" by (simp add: inv_buffers_def)
  have em: "inv_once (emit k t)"
    if t: "buffers t = buffers s" "out t = out s" "nxt t = nxt s" "sub_stopped t = sub_stopped s"
      "cs_added (closings t k)" "\<not> cs_closed (closings t k)"
      "\<And>b. b \<noteq> k \<Longrightarrow> cl_stopped (closings t b) = cl_stopped (closings s b)"
    for t :: "('a, 'e) state"
    using o ns kne d k t
    by (auto simp: inv_once_def emit_def closing_unsubscribe_def subscriber_next_def
        arrRemove_def Let_def dest: notin_set_remove1)
  show ?thesis
  proof (cases n)
    case (Next c)
    with False em [of s] ad show ?thesis by (simp add: closing_notify_def)
  next
    case (Error e)
    with False o ns show ?thesis
      by (auto simp: closing_notify_def closing_stop_def sub_defs inv_once_def)
  next
    case Complete
    from em [of "closing_stop k s"] ad
    have "inv_once (emit k (closing_stop k s))" by (simp add: closing_stop_def)
    then have "inv_once (closing_stop k (emit k (closing_stop k s)))"
      by (auto simp: inv_once_def closing_stop_def)
    with False Complete show ?thesis by (simp add: closing_notify_def)
  qed
qed

lemma open_next_inv_once:
  fixes s :: "('a, 'e) state" and sel :: "'o \<Rightarrow> ('c, 'e) notification list"
  assumes i: "inv_buffers s" "inv_stopped s" and o: "inv_once s"
    and a: "\<not> open_stopped s" and l: "length (sel x) \<le> 1"
  shows "inv_once (open_next sel x s)"
proof -
  from i(2) a have ns: "\<not> sub_stopped s" by (auto simp: inv_stopped_def)
  from i(1) have f: "nxt s \<notin> set (buffers s)" by (auto simp: inv_buffers_def)
  from o have e: "nxt s \<notin> set (emitted (out s))" by (auto simp: inv_once_def)
  from l consider "sel x = []" | n where "sel x = [n]"
    by (cases "sel x") (auto simp: length_Suc_conv)
  then show ?thesis
  proof cases
    case 1
    with o ns show ?thesis
      by (auto simp: inv_once_def open_next_def closing_add_def Let_def less_Suc_eq)
  next
    case 2
    show ?thesis
    proof (cases n)
      case (Next c)
      with 2 o ns f e show ?thesis
        by (auto simp: inv_once_def open_next_def cl_defs subscriber_next_def arrRemove_def
            Let_def less_Suc_eq remove1_append)
    next
      case (Error err)
      with 2 o ns show ?thesis
        by (auto simp: inv_once_def open_next_def cl_defs sub_defs Let_def less_Suc_eq)
    next
      case Complete
      with 2 o ns f e show ?thesis
        by (auto simp: inv_once_def open_next_def cl_defs subscriber_next_def arrRemove_def
            Let_def less_Suc_eq remove1_append)
    qed
  qed
qed

lemma step_inv_once:
  fixes s :: "('a, 'e) state" and sel :: "'o \<Rightarrow> ('c, 'e) notification list"
  assumes i: "inv s" and o: "inv_once s" and l: "\<And>x. length (sel x) \<le> 1"
  shows "inv_once (step sel s ev)"
proof (cases ev)
  case (Openings n)
  show ?thesis
  proof (cases "open_stopped s")
    case True
    with Openings o show ?thesis by (simp add: openings_notify_def)
  next
    case False
    with i have ns: "\<not> sub_stopped s" by (auto simp: inv_def inv_stopped_def)
    show ?thesis
    proof (cases n)
      case (Next x)
      with Openings False i o l [of x] open_next_inv_once [of s sel x] show ?thesis
        by (simp add: openings_notify_def inv_def)
    next
      case (Error e)
      with Openings False o ns show ?thesis
        by (auto simp: openings_notify_def sub_defs inv_once_def)
    next
      case Complete
      with Openings False o show ?thesis
        by (auto simp: openings_notify_def inv_once_def)
    qed
  qed
next
  case SubscribeSource
  with o show ?thesis by (auto simp: source_subscribe_def inv_once_def)
next
  case (Source n)
  from i have d: "distinct (buffers s)" "\<forall>b\<in>set (buffers s). b < nxt s"
    "sub_stopped s \<longrightarrow> src_stopped s"
    by (auto simp: inv_def inv_buffers_def inv_stopped_def)
  with Source o show ?thesis
    by (cases n) (auto simp: source_notify_def sub_defs flush_eq inv_once_def)
next
  case (Closing k n)
  with i o closing_notify_inv_once [of s k n] show ?thesis
    by (simp add: inv_def)
next
  case Unsubscribe
  with o show ?thesis by (auto simp: sub_defs inv_once_def)
qed

lemma single_flush_without_repeated_sync_closing:
  fixes sel :: "'o \<Rightarrow> ('c, 'e) notification list"
    and evs :: "('a, 'o, 'c, 'e) event list"
  assumes "\<And>x. length (sel x) \<le> 1"
  shows "distinct (emitted (out (run sel evs :: ('a, 'e) state)))"
proof -
  have "inv_once (run sel evs :: ('a, 'e) state)"
  proof (induction evs rule: rev_induct)
    case Nil
    show ?case by (simp add: run_Nil init_def inv_once_def)
  next
    case (snoc ev evs)
    from step_inv_once [OF run_inv snoc assms] show ?case by (simp add: run_snoc)
  qed
  then show ?thesis by (simp add: inv_once_def)
qed

subsection \<open>A closing source that completes, and one that emits a value\<close>

text \<open>
  After its \<open>subscribe\<close> call has returned, a value and a completion of an active
  closing source both remove buffer \<open>k\<close> from \<open>buffers\<close>, send it downstream and stop
  the closing subscription of \<open>k\<close>; the two states are the same one.
\<close>

lemma closing_flush_state:
  fixes sel :: "'o \<Rightarrow> ('c, 'e) notification list"
    and evs :: "('a, 'o, 'c, 'e) event list" and s :: "('a, 'e) state"
  assumes "s = run sel evs" and "k < nxt s" and "\<not> cl_stopped (closings s k)"
    and "n = Next c \<or> n = Complete"
  shows "step sel s (Closing k n) =
           s\<lparr> buffers := remove1 k (buffers s), out := out s @ [Next (k, heap s k)],
              closings := (closings s)
                (k := \<lparr> cl_stopped = True, cs_closed = True, cs_added = True \<rparr>) \<rparr>"
proof -
  have i: "inv s" using assms(1) by (simp add: run_inv)
  with assms(2,3) have a: "cs_added (closings s k) \<and> \<not> cs_closed (closings s k)"
    by (simp add: inv_def inv_added_def)
  from i assms(3) have ns: "\<not> sub_stopped s" by (auto simp: inv_def inv_stopped_def)
  from a have e: "(closings s k)\<lparr> cs_closed := True, cl_stopped := True \<rparr> =
      \<lparr> cl_stopped = True, cs_closed = True, cs_added = True \<rparr>"
    by (cases "closings s k") simp
  from a have e': "(closings s k)\<lparr> cl_stopped := True, cs_closed := True \<rparr> =
      \<lparr> cl_stopped = True, cs_closed = True, cs_added = True \<rparr>"
    by (cases "closings s k") simp
  from assms(4) show ?thesis
  proof
    assume "n = Next c"
    with a ns assms(2,3) show ?thesis
      by (simp add: cl_defs subscriber_next_def arrRemove_def Let_def e)
  next
    assume "n = Complete"
    with a ns assms(2,3) show ?thesis
      by (simp add: cl_defs subscriber_next_def arrRemove_def Let_def e e')
  qed
qed

lemma closing_complete_state_eq:
  fixes sel :: "'o \<Rightarrow> ('c, 'e) notification list"
    and evs :: "('a, 'o, 'c, 'e) event list" and t :: "('a, 'e) state"
  shows "step sel (run sel evs :: ('a, 'e) state) (Closing k Complete) =
           step sel (run sel evs) (Closing k (Next c))
       \<and> step sel (step sel (run sel evs :: ('a, 'e) state) (Closing k (Next c))) (Closing k n) =
           step sel (run sel evs) (Closing k (Next c))
       \<and> step (\<lambda>_. [Complete :: ('c, 'e) notification]) t (Openings (Next x)) =
           step (\<lambda>_. [Next c]) t (Openings (Next x))
       \<and> cl_stopped (closings (open_next (\<lambda>_. [Next c]) x t) (nxt t))"
proof -
  let ?s = "run sel evs :: ('a, 'e) state"
  have a: "inv_added (nxt ?s) ?s" using run_inv [of sel evs] by (simp add: inv_def)
  have 1: "closing_notify k (Complete :: ('c, 'e) notification) ?s = closing_notify k (Next c) ?s"
    and 2: "closing_notify k n (closing_notify k (Next c) ?s) = closing_notify k (Next c) ?s"
    if "k < nxt ?s"
  proof -
    from a that have "\<not> cl_stopped (closings ?s k) \<Longrightarrow>
        cs_added (closings ?s k) \<and> \<not> cs_closed (closings ?s k)"
      by (simp add: inv_added_def)
    then show "closing_notify k (Complete :: ('c, 'e) notification) ?s = closing_notify k (Next c) ?s"
      and "closing_notify k n (closing_notify k (Next c) ?s) = closing_notify k (Next c) ?s"
      by (cases "cl_stopped (closings ?s k)"; simp add: cl_defs subscriber_next_def Let_def)+
  qed
  have 3: "open_next (\<lambda>_. [Complete :: ('c, 'e) notification]) x t = open_next (\<lambda>_. [Next c]) x t"
    by (simp add: open_next_def cl_defs subscriber_next_def Let_def)
  have 4: "cl_stopped (closings (open_next (\<lambda>_. [Next c]) x t) (nxt t))"
    by (simp add: open_next_def cl_defs subscriber_next_def Let_def)
  from 1 2 3 4 show ?thesis by (simp add: openings_notify_def)
qed

section \<open>The claims\<close>

text \<open>
  C1. A value \<open>v\<close> of the main source that arrives while the main subscriber is active
  is appended at the end of every buffer that is in \<open>buffers\<close> at that moment, and
  changes no other buffer. The event emits nothing and leaves \<open>buffers\<close> as it is. A
  buffer created afterwards starts empty, and a buffer that has been removed keeps its
  contents whatever happens later.
\<close>

theorem fan_out:
  fixes sel :: "'o \<Rightarrow> ('c, 'e) notification list"
    and evs evs' :: "('a, 'o, 'c, 'e) event list" and s :: "('a, 'e) state"
  assumes "s = run sel evs" and "src_sub s" and "\<not> src_stopped s"
  shows "heap (run sel (evs @ [Source (Next v)])) b =
           (if b \<in> set (buffers s) then heap s b @ [v] else heap s b)
       \<and> buffers (run sel (evs @ [Source (Next v)]) :: ('a, 'e) state) = buffers s
       \<and> out (run sel (evs @ [Source (Next v)]) :: ('a, 'e) state) = out s
       \<and> heap (run sel (evs @ [Openings (Next x)]) :: ('a, 'e) state) (nxt s) = []
       \<and> (b < nxt s \<and> b \<notin> set (buffers s) \<longrightarrow>
            heap (run sel (evs @ evs') :: ('a, 'e) state) b = heap s b)"
proof -
  have i: "inv s" using assms(1) by (simp add: run_inv)
  then have d: "distinct (buffers s)" by (simp add: inv_def inv_buffers_def)
  have f: "heap s (nxt s) = []" using i by (simp add: inv_def inv_fresh_def)
  have st: "step sel s (Source (Next v)) = s\<lparr> heap := push_all v (buffers s) (heap s) \<rparr>"
    using assms(2,3) by (simp add: source_notify_def)
  have op: "heap (step sel s (Openings (Next x))) (nxt s) = []"
    using f by (simp add: openings_notify_def)
  have rm: "b < nxt s \<and> b \<notin> set (buffers s) \<longrightarrow>
      heap (run sel (evs @ evs') :: ('a, 'e) state) b = heap s b"
    using steps_removed [of b s sel evs'] assms(1) by (simp add: run_append)
  have "heap (step sel s (Source (Next v))) b =
           (if b \<in> set (buffers s) then heap s b @ [v] else heap s b)
       \<and> buffers (step sel s (Source (Next v))) = buffers s
       \<and> out (step sel s (Source (Next v))) = out s"
    unfolding st by (simp add: push_all_in [OF d] push_all_notin)
  with op rm show ?thesis
    unfolding run_snoc assms(1) [symmetric] by blast
qed

theorem fan_out_witness:
  "src_sub (run (\<lambda>_::nat. [] :: (unit, nat) notification list)
      [Openings (Next 7), SubscribeSource, Source (Next 1), Openings (Next 7),
       Closing 0 (Next ())] :: (nat, nat) state)
   \<and> \<not> src_stopped (run (\<lambda>_::nat. [] :: (unit, nat) notification list)
      [Openings (Next 7), SubscribeSource, Source (Next 1), Openings (Next 7),
       Closing 0 (Next ())] :: (nat, nat) state)
   \<and> heap (run (\<lambda>_::nat. [] :: (unit, nat) notification list)
      ([Openings (Next 7), SubscribeSource, Source (Next 1), Openings (Next 7),
        Closing 0 (Next ())] @ [Source (Next 2)]) :: (nat, nat) state) 0 = [1]
   \<and> heap (run (\<lambda>_::nat. [] :: (unit, nat) notification list)
      ([Openings (Next 7), SubscribeSource, Source (Next 1), Openings (Next 7),
        Closing 0 (Next ())] @ [Source (Next 2)]) :: (nat, nat) state) 1 = [2]
   \<and> heap (run (\<lambda>_::nat. [] :: (unit, nat) notification list)
      ([Openings (Next 7), SubscribeSource, Source (Next 1), Openings (Next 7),
        Closing 0 (Next ())] @ [Source (Next 2)]) :: (nat, nat) state) 2 = []
   \<and> heap (run (\<lambda>_::nat. [] :: (unit, nat) notification list)
      ([Openings (Next 7), SubscribeSource, Source (Next 1), Openings (Next 7),
        Closing 0 (Next ())] @ [Source (Next 2), Source (Next 3), Source Complete])
      :: (nat, nat) state) 0 = [1]"
proof -
  let ?sel = "\<lambda>_::nat. [] :: (unit, nat) notification list"
  let ?evs = "[Openings (Next 7), SubscribeSource, Source (Next 1), Openings (Next 7),
       Closing 0 (Next ())] :: (nat, nat, unit, nat) event list"
  let ?s = "run ?sel ?evs :: (nat, nat) state"
  have h1: "src_sub ?s" by (simp add: eval_defs)
  have h2: "\<not> src_stopped ?s" by (simp add: eval_defs)
  have b: "buffers ?s = [1]" "nxt ?s = 2" by (simp_all add: eval_defs)
  have c: "heap ?s 0 = [1]" "heap ?s 1 = []" "heap ?s 2 = []" by (simp_all add: eval_defs)
  from fan_out [OF refl h1 h2, where v = 2 and b = 0 and x = 7
      and evs' = "[Source (Next 2), Source (Next 3), Source Complete]"]
    fan_out [OF refl h1 h2, where v = 2 and b = 1 and x = 7 and evs' = "[]"]
    fan_out [OF refl h1 h2, where v = 2 and b = 2 and x = 7 and evs' = "[]"] h1 h2 b c
  show ?thesis by simp
qed

text \<open>
  C2. The claim fails on the code. The closure \<open>emit\<close> of lines 76 to 80 sends the buffer
  to \<open>subscriber.next\<close> whether or not \<open>arrRemove\<close> found it, and while the closing
  source is still inside its \<open>subscribe\<close> call the closing subscriber has not yet been
  added to \<open>closingSubscription\<close>, so \<open>closingSubscription.unsubscribe()\<close> does not stop
  it. A closing source that emits a value and completes within \<open>subscribe\<close> therefore
  runs \<open>emit\<close> twice: after one opening value the downstream consumer has received the
  same buffer, reference \<open>0\<close>, two times. (Lemma
  \<open>single_flush_without_repeated_sync_closing\<close> above shows that this is the only way:
  when no closing source notifies more than once within \<open>subscribe\<close>, no buffer is
  emitted twice.)
\<close>

theorem emit_twice:
  "out (bufferToggle (\<lambda>_. [Next c, Complete]) [Openings (Next x)] []) =
     [Next (0, []), Next (0, [])]"
  by (simp add: eval_defs)

text \<open>
  C3. When the main source completes while its subscriber is active, the downstream
  consumer receives every buffer that is still in \<open>buffers\<close>, in the order of
  \<open>buffers\<close>, which is the order of creation (references are creation indices, and
  \<open>buffers\<close> is strictly increasing), and then the completion; \<open>buffers\<close> is empty
  afterwards. When no opening value was ever received, the completion is the only thing
  the downstream consumer receives.
\<close>

theorem completion_flush:
  fixes sel :: "'o \<Rightarrow> ('c, 'e) notification list"
    and evs :: "('a, 'o, 'c, 'e) event list" and s :: "('a, 'e) state"
  assumes "s = run sel evs" and "src_sub s" and "\<not> src_stopped s"
  shows "out (run sel (evs @ [Source Complete])) =
           out s @ map (\<lambda>b. Next (b, heap s b)) (buffers s) @ [Complete]
       \<and> sorted_wrt (<) (buffers s)
       \<and> buffers (run sel (evs @ [Source Complete]) :: ('a, 'e) state) = []
       \<and> ((\<forall>x. Openings (Next x) \<notin> set evs) \<longrightarrow>
            out (run sel (evs @ [Source Complete]) :: ('a, 'e) state) = [Complete])"
proof -
  have i: "inv s" using assms(1) by (simp add: run_inv)
  with assms(3) have n: "\<not> sub_stopped s" by (auto simp: inv_def inv_stopped_def)
  from i have srt: "sorted_wrt (<) (buffers s)"
    by (simp add: inv_def inv_buffers_def strict_sorted_iff)
  have st: "step sel s (Source Complete) =
      s\<lparr> buffers := [], out := out s @ map (\<lambda>b. Next (b, heap s b)) (buffers s) @ [Complete],
         closings := (\<lambda>k. (closings s k)\<lparr> cl_stopped := True \<rparr>),
         open_stopped := True, src_stopped := True, sub_stopped := True \<rparr>"
    using assms(2,3) n by (simp add: source_notify_def sub_defs flush_eq)
  have z: "out s @ map (\<lambda>b. Next (b, heap s b)) (buffers s) = []"
    if a: "\<forall>x. Openings (Next x) \<notin> set evs"
  proof -
    from no_openings [OF a, of sel] assms(1)
    have k: "nxt s = 0" and f: "filter (\<lambda>n. \<not> terminal n) (out s) = []" by simp_all
    from i n have "filter terminal (out s) = []" by (simp add: inv_def inv_out_def)
    with f have "out s = []" by (cases "out s") (auto split: if_splits)
    moreover from i k have "buffers s = []"
      by (cases "buffers s") (auto simp: inv_def inv_buffers_def)
    ultimately show ?thesis by simp
  qed
  show ?thesis
    unfolding run_snoc assms(1) [symmetric] st
    using srt z by simp
qed

theorem completion_flush_witness:
  "src_sub (run (\<lambda>_::nat. [] :: (unit, nat) notification list)
      [Openings (Next 7), SubscribeSource, Source (Next 1), Openings (Next 8),
       Source (Next 2)] :: (nat, nat) state)
   \<and> \<not> src_stopped (run (\<lambda>_::nat. [] :: (unit, nat) notification list)
      [Openings (Next 7), SubscribeSource, Source (Next 1), Openings (Next 8),
       Source (Next 2)] :: (nat, nat) state)
   \<and> out (run (\<lambda>_::nat. [] :: (unit, nat) notification list)
      ([Openings (Next 7), SubscribeSource, Source (Next 1), Openings (Next 8),
        Source (Next 2)] @ [Source Complete]) :: (nat, nat) state) =
      [Next (0, [1, 2]), Next (1, [2]), Complete]
   \<and> out (run (\<lambda>_::nat. [] :: (unit, nat) notification list)
      ([SubscribeSource, Source (Next 1), Openings Complete] @ [Source Complete])
      :: (nat, nat) state) = [Complete]"
proof -
  let ?sel = "\<lambda>_::nat. [] :: (unit, nat) notification list"
  let ?evs = "[Openings (Next 7), SubscribeSource, Source (Next 1), Openings (Next 8),
       Source (Next 2)] :: (nat, nat, unit, nat) event list"
  let ?none = "[SubscribeSource, Source (Next 1), Openings Complete]
       :: (nat, nat, unit, nat) event list"
  let ?s = "run ?sel ?evs :: (nat, nat) state"
  let ?t = "run ?sel ?none :: (nat, nat) state"
  have h1: "src_sub ?s" and h2: "\<not> src_stopped ?s" by (simp_all add: eval_defs)
  have k1: "src_sub ?t" and k2: "\<not> src_stopped ?t" by (simp_all add: eval_defs)
  have b: "buffers ?s = [0, 1]" "heap ?s 0 = [1, 2]" "heap ?s 1 = [2]" "out ?s = []"
    by (simp_all add: eval_defs)
  have c: "buffers ?t = []" "out ?t = []" by (simp_all add: eval_defs)
  have z: "\<forall>x. Openings (Next x) \<notin> set ?none" by simp
  from completion_flush [OF refl h1 h2] completion_flush [OF refl k1 k2] h1 h2 b c z
  show ?thesis by simp
qed

text \<open>
  C4. An error of the main source, of the openings source, or of a closing source (after
  or during its \<open>subscribe\<close> call), reaching a subscriber that is still active, is the
  next and the last thing the downstream consumer receives: the error itself, with no
  buffer emitted by that event and nothing at all after it, whatever happens later.
\<close>

theorem error_terminal:
  fixes sel :: "'o \<Rightarrow> ('c, 'e) notification list" and s :: "('a, 'e) state"
  assumes "s = run sel evs"
    and "ev = Source (Error e) \<and> src_sub s \<and> \<not> src_stopped s
       \<or> ev = Openings (Error e) \<and> \<not> open_stopped s
       \<or> ev = Closing k (Error e) \<and> k < nxt s \<and> \<not> cl_stopped (closings s k)
       \<or> ev = Openings (Next x) \<and> \<not> open_stopped s \<and> sel x = Error e # ns"
  shows "out (run sel (evs @ ev # evs')) = out s @ [Error e]"
proof -
  have i: "inv_stopped s" using assms(1) run_inv [of sel evs] by (simp add: inv_def)
  have "sub_stopped (step sel s ev) \<and> out (step sel s ev) = out s @ [Error e]"
    using assms(2)
  proof (elim disjE conjE)
    assume a: "ev = Source (Error e)" "src_sub s" "\<not> src_stopped s"
    with i have "\<not> sub_stopped s" by (auto simp: inv_stopped_def)
    with a show ?thesis by (simp add: source_notify_def sub_defs)
  next
    assume a: "ev = Openings (Error e)" "\<not> open_stopped s"
    with i have "\<not> sub_stopped s" by (auto simp: inv_stopped_def)
    with a show ?thesis by (simp add: openings_notify_def sub_defs)
  next
    assume a: "ev = Closing k (Error e)" "k < nxt s" "\<not> cl_stopped (closings s k)"
    with i have "\<not> sub_stopped s" by (auto simp: inv_stopped_def)
    with a show ?thesis by (simp add: closing_notify_def closing_stop_def sub_defs)
  next
    assume a: "ev = Openings (Next x)" "\<not> open_stopped s" "sel x = Error e # ns"
    with i have n: "\<not> sub_stopped s" by (auto simp: inv_stopped_def)
    let ?s1 = "s\<lparr> buffers := buffers s @ [nxt s], heap := (heap s)(nxt s := []),
      nxt := Suc (nxt s),
      closings := (closings s)
        (nxt s := \<lparr> cl_stopped = sub_stopped s, cs_closed = False, cs_added = False \<rparr>) \<rparr>"
    let ?s2 = "closing_notify (nxt s) (Error e :: ('c, 'e) notification) ?s1"
    let ?P = "\<lambda>t. sub_stopped t \<and> out t = out s @ [Error e]"
    from n have "?P ?s2" by (simp add: closing_notify_def closing_stop_def sub_defs)
    then have "?P (foldl (\<lambda>t n. closing_notify (nxt s) n t) ?s2 ns)"
      by (rule sync_fold [where P = ?P]) (simp add: closing_notify_frozen)
    with a show ?thesis by (simp add: openings_notify_def open_next_def Let_def)
  qed
  with steps_frozen [of "step sel s ev" sel evs'] assms(1) show ?thesis
    by (simp add: run_Cons_after)
qed

theorem error_terminal_witness:
  "out (run (\<lambda>_::nat. [] :: (unit, nat) notification list)
      ([Openings (Next 7), SubscribeSource, Source (Next 1)]
        @ Closing 0 (Error 9) # [Source (Next 2), Source Complete, Closing 0 Complete])
      :: (nat, nat) state) = [Error 9]
   \<and> out (run (\<lambda>_::nat. [] :: (unit, nat) notification list)
      ([Openings (Next 7), SubscribeSource, Source (Next 1)]
        @ Source (Error 9) # [Closing 0 (Next ()), Source Complete])
      :: (nat, nat) state) = [Error 9]
   \<and> out (run (\<lambda>_::nat. [] :: (unit, nat) notification list)
      ([Openings (Next 7), SubscribeSource, Source (Next 1)]
        @ Openings (Error 9) # [Closing 0 (Next ()), Source Complete])
      :: (nat, nat) state) = [Error 9]
   \<and> out (run (\<lambda>_::nat. [Error 9, Next ()] :: (unit, nat) notification list)
      ([SubscribeSource, Source (Next 1)]
        @ Openings (Next 7) # [Closing 0 (Next ()), Source Complete])
      :: (nat, nat) state) = [Error 9]"
proof -
  let ?sel = "\<lambda>_::nat. [] :: (unit, nat) notification list"
  let ?sel' = "\<lambda>_::nat. [Error 9, Next ()] :: (unit, nat) notification list"
  let ?evs = "[Openings (Next 7), SubscribeSource, Source (Next 1)]
      :: (nat, nat, unit, nat) event list"
  let ?evs' = "[SubscribeSource, Source (Next 1)] :: (nat, nat, unit, nat) event list"
  let ?s = "run ?sel ?evs :: (nat, nat) state"
  let ?s' = "run ?sel' ?evs' :: (nat, nat) state"
  have h: "(0::nat) < nxt ?s" "\<not> cl_stopped (closings ?s 0)" "src_sub ?s"
    "\<not> src_stopped ?s" "\<not> open_stopped ?s" "out ?s = []"
    by (simp_all add: eval_defs)
  have h': "\<not> open_stopped ?s'" "out ?s' = []" by (simp_all add: eval_defs)
  from
    error_terminal [OF refl, where ev = "Closing 0 (Error 9)" and e = 9 and sel = ?sel
      and evs = ?evs and k = 0 and x = 0 and ns = "[]"
      and evs' = "[Source (Next 2), Source Complete, Closing 0 Complete]"]
    error_terminal [OF refl, where ev = "Source (Error 9)" and e = 9 and sel = ?sel
      and evs = ?evs and k = 0 and x = 0 and ns = "[]"
      and evs' = "[Closing 0 (Next ()), Source Complete]"]
    error_terminal [OF refl, where ev = "Openings (Error 9)" and e = 9 and sel = ?sel
      and evs = ?evs and k = 0 and x = 0 and ns = "[]"
      and evs' = "[Closing 0 (Next ()), Source Complete]"]
    error_terminal [OF refl, where ev = "Openings (Next 7)" and e = 9 and sel = ?sel'
      and evs = ?evs' and k = 0 and x = 7 and ns = "[Next ()]"
      and evs' = "[Closing 0 (Next ()), Source Complete]"]
    h h'
  show ?thesis by simp
qed

text \<open>
  C5. The claim fails on the code, by the defect of C2. A closing source that completes
  within its \<open>subscribe\<close> call without a value has its buffer removed and emitted once,
  and so has one that emits a single value there and nothing more. But a closing source
  that emits one value and then completes within \<open>subscribe\<close>, as every finite
  synchronous one-value source does, is not ignored after its value: the completion
  runs \<open>emit\<close> again, and the downstream consumer receives the buffer a second time. The
  two closing sources do not have the same effect.
\<close>

theorem closing_value_then_complete_differs:
  "out (bufferToggle (\<lambda>_. [Complete]) [Openings (Next x)] []) = [Next (0, [])]
   \<and> buffers (bufferToggle (\<lambda>_. [Complete]) [Openings (Next x)] []) = []
   \<and> out (bufferToggle (\<lambda>_. [Next c]) [Openings (Next x)] []) = [Next (0, [])]
   \<and> buffers (bufferToggle (\<lambda>_. [Next c]) [Openings (Next x)] []) = []
   \<and> out (bufferToggle (\<lambda>_. [Next c, Complete]) [Openings (Next x)] []) =
       [Next (0, []), Next (0, [])]
   \<and> buffers (bufferToggle (\<lambda>_. [Next c, Complete]) [Openings (Next x)] []) = []"
  by (simp add: eval_defs)

text \<open>
  C6. In every run at most one terminal notification (error or completion) reaches the
  downstream consumer, and it is the last thing it receives: no element of the output but
  the last is terminal; once the downstream subscriber is stopped the output never grows
  again; and as long as it is not stopped no terminal notification has been delivered.
\<close>

theorem first_terminal_wins:
  fixes sel :: "'o \<Rightarrow> ('c, 'e) notification list"
    and evs evs' :: "('a, 'o, 'c, 'e) event list"
  shows "filter terminal (butlast (out (run sel evs :: ('a, 'e) state))) = []
       \<and> (sub_stopped (run sel evs :: ('a, 'e) state) \<longrightarrow>
            out (run sel (evs @ evs') :: ('a, 'e) state) = out (run sel evs))
       \<and> (\<not> sub_stopped (run sel evs :: ('a, 'e) state) \<longrightarrow>
            filter terminal (out (run sel evs :: ('a, 'e) state)) = [])"
proof -
  let ?s = "run sel evs :: ('a, 'e) state"
  have "inv_out ?s" using run_inv [of sel evs] by (simp add: inv_def)
  then have "filter terminal (butlast (out ?s)) = []"
    and "\<not> sub_stopped ?s \<longrightarrow> filter terminal (out ?s) = []"
    by (auto simp: inv_out_def)
  moreover have "sub_stopped ?s \<longrightarrow> out (run sel (evs @ evs') :: ('a, 'e) state) = out ?s"
    using steps_frozen [of ?s sel evs'] by (simp add: run_append)
  ultimately show ?thesis by blast
qed

theorem first_terminal_wins_witness:
  "sub_stopped (run (\<lambda>_::nat. [Error 3] :: (unit, nat) notification list)
      [Openings (Next 7), Openings (Error 4)] :: (nat, nat) state)
   \<and> out (run (\<lambda>_::nat. [Error 3] :: (unit, nat) notification list)
      ([Openings (Next 7), Openings (Error 4)]
        @ [SubscribeSource, Source (Error 5), Source Complete, Closing 0 (Next ())])
      :: (nat, nat) state) = [Error 3]
   \<and> \<not> sub_stopped (run (\<lambda>_::nat. [] :: (unit, nat) notification list)
      [Openings (Next 7), SubscribeSource, Source (Next 1), Closing 0 Complete]
      :: (nat, nat) state)
   \<and> filter terminal (out (run (\<lambda>_::nat. [] :: (unit, nat) notification list)
      [Openings (Next 7), SubscribeSource, Source (Next 1), Closing 0 Complete]
      :: (nat, nat) state)) = []"
proof -
  let ?sel = "\<lambda>_::nat. [Error 3] :: (unit, nat) notification list"
  let ?evs = "[Openings (Next 7), Openings (Error 4)] :: (nat, nat, unit, nat) event list"
  let ?sel' = "\<lambda>_::nat. [] :: (unit, nat) notification list"
  let ?evs' = "[Openings (Next 7), SubscribeSource, Source (Next 1), Closing 0 Complete]
      :: (nat, nat, unit, nat) event list"
  have h: "sub_stopped (run ?sel ?evs :: (nat, nat) state)"
    "out (run ?sel ?evs :: (nat, nat) state) = [Error 3]"
    by (simp_all add: eval_defs)
  have h': "\<not> sub_stopped (run ?sel' ?evs' :: (nat, nat) state)"
    by (simp add: eval_defs)
  from
    first_terminal_wins [where sel = ?sel and evs = ?evs
      and evs' = "[SubscribeSource, Source (Error 5), Source Complete, Closing 0 (Next ())]"
      and 'a = nat]
    first_terminal_wins [where sel = ?sel' and evs = ?evs' and evs' = "[]" and 'a = nat]
    h h'
  show ?thesis by simp
qed

text \<open>
  C7. Completion of the openings source changes nothing but the stopped flag of the
  openings subscriber: nothing is emitted, no buffer is touched, the main and closing
  subscribers stay as they are. Afterwards every openings notification is ignored, so no
  further buffer opens; and a run in which the openings source completes at some point
  and is silent afterwards ends in the state of the same run without that completion, up
  to that flag: the buffers that are open keep collecting, and the operator terminates
  with the main source as before.
\<close>

theorem openings_complete_swallowed:
  fixes sel :: "'o \<Rightarrow> ('c, 'e) notification list"
    and evs evs' :: "('a, 'o, 'c, 'e) event list" and s :: "('a, 'e) state"
  shows "step sel s (Openings Complete) = s\<lparr> open_stopped := True \<rparr>
       \<and> step sel (s\<lparr> open_stopped := True \<rparr>) (Openings n) = s\<lparr> open_stopped := True \<rparr>
       \<and> ((\<forall>n. Openings n \<notin> set evs') \<longrightarrow>
            (run sel (evs @ Openings Complete # evs') :: ('a, 'e) state) =
            (run sel (evs @ evs'))\<lparr> open_stopped := True \<rparr>)"
proof -
  have 1: "step sel s (Openings Complete) = s\<lparr> open_stopped := True \<rparr>"
    by (cases "open_stopped s") (simp_all add: openings_notify_def)
  have 2: "step sel (s\<lparr> open_stopped := True \<rparr>) (Openings n) = s\<lparr> open_stopped := True \<rparr>"
    by (simp add: openings_notify_def)
  have 3: "(run sel (evs @ Openings Complete # evs') :: ('a, 'e) state) =
            (run sel (evs @ evs'))\<lparr> open_stopped := True \<rparr>"
    if "\<forall>n. Openings n \<notin> set evs'"
  proof -
    let ?s = "run sel evs :: ('a, 'e) state"
    have "step sel ?s (Openings Complete) = ?s\<lparr> open_stopped := True \<rparr>"
      by (cases "open_stopped ?s") (simp_all add: openings_notify_def)
    with open_stopped_commute_steps [OF that, of sel ?s] show ?thesis
      by (simp add: run_Cons_after run_append)
  qed
  from 1 2 3 show ?thesis by blast
qed

theorem openings_complete_swallowed_witness:
  "out (run (\<lambda>_::nat. [] :: (unit, nat) notification list)
      ([Openings (Next 7), SubscribeSource]
        @ Openings Complete # [Source (Next 1), Source Complete]) :: (nat, nat) state) =
      [Next (0, [1]), Complete]
   \<and> out (run (\<lambda>_::nat. [] :: (unit, nat) notification list)
      ([Openings (Next 7), SubscribeSource] @ [Openings Complete]) :: (nat, nat) state) = []"
proof -
  let ?sel = "\<lambda>_::nat. [] :: (unit, nat) notification list"
  let ?evs = "[Openings (Next 7), SubscribeSource] :: (nat, nat, unit, nat) event list"
  let ?evs' = "[Source (Next 1), Source Complete] :: (nat, nat, unit, nat) event list"
  have z: "\<forall>n. Openings n \<notin> set ?evs'" "\<forall>n. Openings n \<notin> set ([] :: (nat, nat, unit, nat) event list)"
    by simp_all
  have o: "out (run ?sel (?evs @ ?evs') :: (nat, nat) state) = [Next (0, [1]), Complete]"
    "out (run ?sel (?evs @ []) :: (nat, nat) state) = []"
    by (simp_all add: eval_defs)
  from
    openings_complete_swallowed [where sel = ?sel and evs = ?evs and evs' = ?evs'
      and 'a = nat and s = init and n = Complete]
    openings_complete_swallowed [where sel = ?sel and evs = ?evs and evs' = "[]"
      and 'a = nat and s = init and n = Complete]
    z o
  show ?thesis by simp
qed

text \<open>
  C8. On a reachable state whose openings subscriber is active, an opening value
  allocates exactly one fresh buffer reference, different from every live one, with empty
  contents; when the closing source does not notify within \<open>subscribe\<close>, the new state
  is the old one with that reference appended at the end of \<open>buffers\<close> and an active
  closing subscription of its own, every other buffer and closing subscription being as
  before (so several buffers are live at once, and equal opening values give different
  buffers). A value of the closing source of buffer \<open>k\<close> removes and emits buffer \<open>k\<close>
  and stops the closing subscription of \<open>k\<close> only.
\<close>

theorem opening_creates_buffer:
  fixes sel :: "'o \<Rightarrow> ('c, 'e) notification list"
    and evs :: "('a, 'o, 'c, 'e) event list" and s :: "('a, 'e) state"
  assumes "s = run sel evs" and "\<not> open_stopped s"
  shows "nxt s \<notin> set (buffers s)
       \<and> nxt (step sel s (Openings (Next x))) = Suc (nxt s)
       \<and> heap (step sel s (Openings (Next x))) = (heap s)(nxt s := [])
       \<and> (sel x = [] \<longrightarrow>
            step sel s (Openings (Next x)) =
              s\<lparr> buffers := buffers s @ [nxt s], heap := (heap s)(nxt s := []),
                 nxt := Suc (nxt s),
                 closings := (closings s)
                   (nxt s := \<lparr> cl_stopped = False, cs_closed = False, cs_added = True \<rparr>) \<rparr>)
       \<and> (k < nxt s \<and> \<not> cl_stopped (closings s k) \<longrightarrow>
            step sel s (Closing k (Next c)) =
              s\<lparr> buffers := remove1 k (buffers s), out := out s @ [Next (k, heap s k)],
                 closings := (closings s)
                   (k := \<lparr> cl_stopped = True, cs_closed = True, cs_added = True \<rparr>) \<rparr>)"
proof -
  have i: "inv s" using assms(1) by (simp add: run_inv)
  with assms(2) have n: "\<not> sub_stopped s" by (auto simp: inv_def inv_stopped_def)
  from i have 1: "nxt s \<notin> set (buffers s)" by (auto simp: inv_def inv_buffers_def)
  have 2: "nxt (step sel s (Openings (Next x))) = Suc (nxt s)"
    and 3: "heap (step sel s (Openings (Next x))) = (heap s)(nxt s := [])"
    using assms(2) by (simp_all add: openings_notify_def)
  have 4: "step sel s (Openings (Next x)) =
              s\<lparr> buffers := buffers s @ [nxt s], heap := (heap s)(nxt s := []),
                 nxt := Suc (nxt s),
                 closings := (closings s)
                   (nxt s := \<lparr> cl_stopped = False, cs_closed = False, cs_added = True \<rparr>) \<rparr>"
    if "sel x = []"
    using assms(2) n that by (simp add: openings_notify_def open_next_def closing_add_def Let_def)
  have 5: "step sel s (Closing k (Next c)) =
              s\<lparr> buffers := remove1 k (buffers s), out := out s @ [Next (k, heap s k)],
                 closings := (closings s)
                   (k := \<lparr> cl_stopped = True, cs_closed = True, cs_added = True \<rparr>) \<rparr>"
    if "k < nxt s" "\<not> cl_stopped (closings s k)"
  proof -
    from i that have a: "cs_added (closings s k) \<and> \<not> cs_closed (closings s k)"
      by (simp add: inv_def inv_added_def)
    then have e: "(closings s k)\<lparr> cs_closed := True, cl_stopped := True \<rparr> =
        \<lparr> cl_stopped = True, cs_closed = True, cs_added = True \<rparr>"
      by (cases "closings s k") simp
    from a n that show ?thesis
      by (simp add: cl_defs subscriber_next_def arrRemove_def Let_def e)
  qed
  from 1 2 3 4 5 show ?thesis by blast
qed

theorem opening_creates_buffer_witness:
  "\<not> open_stopped (run (\<lambda>_::nat. [] :: (unit, nat) notification list)
      [Openings (Next 7)] :: (nat, nat) state)
   \<and> buffers (step (\<lambda>_::nat. [] :: (unit, nat) notification list)
      (run (\<lambda>_::nat. [] :: (unit, nat) notification list) [Openings (Next 7)]
        :: (nat, nat) state) (Openings (Next 7))) = [0, 1]
   \<and> nxt (step (\<lambda>_::nat. [] :: (unit, nat) notification list)
      (run (\<lambda>_::nat. [] :: (unit, nat) notification list) [Openings (Next 7)]
        :: (nat, nat) state) (Openings (Next 7))) = 2
   \<and> buffers (step (\<lambda>_::nat. [] :: (unit, nat) notification list)
      (run (\<lambda>_::nat. [] :: (unit, nat) notification list) [Openings (Next 7)]
        :: (nat, nat) state) (Closing 0 (Next ()))) = []
   \<and> out (step (\<lambda>_::nat. [] :: (unit, nat) notification list)
      (run (\<lambda>_::nat. [] :: (unit, nat) notification list) [Openings (Next 7)]
        :: (nat, nat) state) (Closing 0 (Next ()))) = [Next (0, [])]"
proof -
  let ?sel = "\<lambda>_::nat. [] :: (unit, nat) notification list"
  let ?evs = "[Openings (Next 7)] :: (nat, nat, unit, nat) event list"
  let ?s = "run ?sel ?evs :: (nat, nat) state"
  have h: "\<not> open_stopped ?s" by (simp add: eval_defs)
  have b: "buffers ?s = [0]" "nxt ?s = 1" "(0::nat) < nxt ?s"
    "\<not> cl_stopped (closings ?s 0)" "out ?s = []" "heap ?s 0 = []"
    by (simp_all add: eval_defs)
  from opening_creates_buffer [OF refl h, where x = 7 and k = 0 and c = "()"] h b
  show ?thesis by simp
qed

text \<open>
  C9. When the downstream consumer unsubscribes, whatever happens afterwards, it receives
  nothing more: no buffer, no error and no completion. The buffers that were live are
  never emitted.
\<close>

theorem unsubscribe_silent:
  "out (run sel (evs @ Unsubscribe # evs')) = out (run sel evs)"
proof -
  have "sub_stopped (step sel (run sel evs) Unsubscribe)"
    by (simp add: subscriber_unsubscribe_def)
  from steps_frozen [OF this, of sel evs'] show ?thesis
    by (simp add: run_Cons_after subscriber_unsubscribe_def)
qed

text \<open>
  C10. The operator subscribes to the openings source first (line 63) and to the main
  source afterwards (line 90). While the first call is running the main source has no
  subscriber and no value has been put into any buffer; the buffers that the openings
  source opened during that call are in \<open>buffers\<close> when the main source is subscribed
  to, and its first value, if it comes at once, goes into every one of them (unless the
  downstream subscriber was closed in the meantime).
\<close>

theorem openings_subscribed_first:
  fixes sel :: "'o \<Rightarrow> ('c, 'e) notification list"
    and pre :: "('a, 'o, 'c, 'e) event list" and s :: "('a, 'e) state"
  assumes "SubscribeSource \<notin> set pre" and "s = run sel pre"
  shows "\<not> src_sub s
       \<and> heap s = (\<lambda>_. [])
       \<and> src_sub (bufferToggle sel pre [] :: ('a, 'e) state)
       \<and> buffers (bufferToggle sel pre [] :: ('a, 'e) state) = buffers s
       \<and> heap (bufferToggle sel pre [Source (Next v)] :: ('a, 'e) state) b =
           (if b \<in> set (buffers s) \<and> \<not> sub_stopped s then [v] else [])"
proof -
  from pre_phase [OF assms(1), of sel] assms(2)
  have p: "\<not> src_sub s" "heap s = (\<lambda>_. [])" by simp_all
  have d: "distinct (buffers s)"
    using run_inv [of sel pre] assms(2) by (simp add: inv_def inv_buffers_def)
  have t: "bufferToggle sel pre [] = step sel s SubscribeSource"
    "bufferToggle sel pre [Source (Next v)] =
       step sel (step sel s SubscribeSource) (Source (Next v))"
    using assms(2) by (simp_all add: bufferToggle_def run_def)
  have h: "push_all v (buffers s) (\<lambda>_. []) b = (if b \<in> set (buffers s) then [v] else [])"
    using push_all_in [OF d, of b v "\<lambda>_. []"] push_all_notin [of b "buffers s" v "\<lambda>_. []"]
    by simp
  show ?thesis
    unfolding t using p h by (simp add: source_subscribe_def source_notify_def)
qed

theorem openings_subscribed_first_witness:
  "SubscribeSource \<notin> set ([Openings (Next 7), Source (Next 1), Openings (Next 8)]
      :: (nat, nat, unit, nat) event list)
   \<and> buffers (bufferToggle (\<lambda>_::nat. [] :: (unit, nat) notification list)
      [Openings (Next 7), Source (Next 1), Openings (Next 8)] [] :: (nat, nat) state) = [0, 1]
   \<and> heap (bufferToggle (\<lambda>_::nat. [] :: (unit, nat) notification list)
      [Openings (Next 7), Source (Next 1), Openings (Next 8)] [Source (Next 2)]
      :: (nat, nat) state) 0 = [2]
   \<and> heap (bufferToggle (\<lambda>_::nat. [] :: (unit, nat) notification list)
      [Openings (Next 7), Source (Next 1), Openings (Next 8)] [Source (Next 2)]
      :: (nat, nat) state) 1 = [2]"
proof -
  let ?sel = "\<lambda>_::nat. [] :: (unit, nat) notification list"
  let ?pre = "[Openings (Next 7), Source (Next 1), Openings (Next 8)]
      :: (nat, nat, unit, nat) event list"
  let ?s = "run ?sel ?pre :: (nat, nat) state"
  have h: "SubscribeSource \<notin> set ?pre" by simp
  have b: "buffers ?s = [0, 1]" "\<not> sub_stopped ?s" by (simp_all add: eval_defs)
  from openings_subscribed_first [OF h refl, where v = 2 and b = 0]
    openings_subscribed_first [OF h refl, where v = 2 and b = 1] h b
  show ?thesis by simp
qed

end
